theory Spec2Isabelle
  imports Main
begin

section \<open>Python values, strings and dictionaries\<close>

text \<open>
  The program is \<^verbatim>\<open>src/dealflow/dealflow.py\<close>. Its module-level globals
  \<^verbatim>\<open>LEADS\<close>, \<^verbatim>\<open>SALES_REPS\<close> and \<^verbatim>\<open>route_counter\<close> are
  the fields of a state record that every operation takes and returns; a raised
  exception is the left summand of the result, and the state returned beside it is the
  state at the raise.

  A Python \<^verbatim>\<open>str\<close> is a \<open>string\<close> whose characters are the code points below
  256. A value stored in a dictionary is a \<open>pyval\<close>: a string, an integer or
  \<^verbatim>\<open>None\<close>. A \<^verbatim>\<open>dict\<close> is an association list in insertion order
  with pairwise distinct keys: storing under a present key replaces the value where it
  stands, storing under a new key appends.
\<close>

datatype pyval = VStr string | VInt int | VNone

type_synonym pydict = "(string \<times> pyval) list"

datatype error = KeyError pyval | ZeroDivisionError

fun dict_get :: "('k \<times> 'v) list \<Rightarrow> 'k \<Rightarrow> 'v option" where
  "dict_get [] k = None"
| "dict_get ((k', v) # d) k = (if k' = k then Some v else dict_get d k)"

fun dict_set :: "'k \<Rightarrow> 'v \<Rightarrow> ('k \<times> 'v) list \<Rightarrow> ('k \<times> 'v) list" where
  "dict_set k v [] = [(k, v)]"
| "dict_set k v ((k', v') # d) = (if k' = k then (k, v) # d else (k', v') # dict_set k v d)"

text \<open>\<^verbatim>\<open>d.update(e)\<close>: the items of \<open>e\<close> are stored into \<open>d\<close> in order.\<close>

fun dict_update :: "('k \<times> 'v) list \<Rightarrow> ('k \<times> 'v) list \<Rightarrow> ('k \<times> 'v) list" where
  "dict_update d [] = d"
| "dict_update d ((k, v) # e) = dict_update (dict_set k v d) e"

definition dict_keys :: "('k \<times> 'v) list \<Rightarrow> 'k list" where
  "dict_keys d = map fst d"

definition dict_values :: "('k \<times> 'v) list \<Rightarrow> 'v list" where
  "dict_values d = map snd d"

text \<open>\<^verbatim>\<open>s.replace(old, new)\<close> for a one-character \<open>old\<close>.\<close>

definition replace :: "char \<Rightarrow> string \<Rightarrow> string \<Rightarrow> string" where
  "replace old new s = concat (map (\<lambda>c. if c = old then new else [c]) s)"

text \<open>
  \<^verbatim>\<open>s.lower()\<close>: below code point 256 the upper-case letters are \<open>A\<close> to \<open>Z\<close>
  (65 to 90) and 192 to 222 without the multiplication sign 215; each has its lower-case
  letter 32 places further on.
\<close>

definition lower_char :: "char \<Rightarrow> char" where
  "lower_char c =
     (let n = (of_char c :: nat)
      in if (65 \<le> n \<and> n \<le> 90) \<or> (192 \<le> n \<and> n \<le> 222 \<and> n \<noteq> 215)
         then char_of (n + 32) else c)"

definition lower :: "string \<Rightarrow> string" where
  "lower s = map lower_char s"

text \<open>\<^verbatim>\<open>str(n)\<close> for an integer, as an f-string formats it.\<close>

definition digit_char :: "nat \<Rightarrow> char" where
  "digit_char d = char_of (48 + d)"

function str_nat :: "nat \<Rightarrow> string" where
  "str_nat n = (if n < 10 then [digit_char n] else str_nat (n div 10) @ [digit_char (n mod 10)])"
  by pat_completeness auto
termination
  by (relation "measure id") auto

declare str_nat.simps [simp del]

definition str_int :: "int \<Rightarrow> string" where
  "str_int i = (if i < 0 then CHR ''-'' # str_nat (nat (- i)) else str_nat (nat i))"

fun str_val :: "pyval \<Rightarrow> string" where
  "str_val (VStr s) = s"
| "str_val (VInt i) = str_int i"
| "str_val VNone = ''None''"

section \<open>The lead entity and the program state\<close>

text \<open>
  \<^verbatim>\<open>class Lead(EnrichModel)\<close>. The field \<^verbatim>\<open>id\<close> is \<open>id'\<close> here, and
  \<^verbatim>\<open>created_at\<close> is a timestamp in whole time units.
\<close>

record lead =
  id' :: int
  created_at :: int
  name :: string
  email :: string
  source :: string
  extra :: pydict
  status :: string
  score :: "string option"
  assigned_to :: "pydict option"

text \<open>
  The globals of the module, and the lines printed so far (\<open>stdout\<close>), which
  \<^verbatim>\<open>route_lead\<close> extends by its notification.
\<close>

record state =
  LEADS :: "(int \<times> lead) list"
  SALES_REPS :: "pydict list"
  route_counter :: int
  stdout :: "string list"

definition init :: state where
  "init =
     \<lparr>LEADS = [],
      SALES_REPS =
        [[(''id'', VInt 1), (''name'', VStr ''Alice''),
          (''specialty'', VStr ''Startup founders, corporate execs''),
          (''comment'', VStr ''Great with high-value and target buyers'')],
         [(''id'', VInt 2), (''name'', VStr ''Bob''),
          (''specialty'', VStr ''ML engineers, students, researchers''),
          (''comment'', VStr ''Technical, connects with influencers and evangelists'')],
         [(''id'', VInt 3), (''name'', VStr ''Carol''),
          (''specialty'', VStr ''Investors, VCs, referrals''),
          (''comment'', VStr ''Understands investor mindset, builds relationships'')]],
      route_counter = 0,
      stdout = []\<rparr>"

section \<open>The lifecycle operations\<close>

text \<open>
  \<^verbatim>\<open>ingest_lead(name, email, source, extra=None)\<close>. The last argument before the
  state is the clock reading that \<^verbatim>\<open>datetime.utcnow\<close> gives the new lead.
  \<^verbatim>\<open>extra or {}\<close> is the empty dictionary for \<^verbatim>\<open>None\<close> and for an empty
  dictionary.
\<close>

definition ingest_lead ::
  "string \<Rightarrow> string \<Rightarrow> string \<Rightarrow> pydict option \<Rightarrow> int \<Rightarrow> state \<Rightarrow> (error + lead) \<times> state" where
  "ingest_lead name_arg email_arg source_arg extra_arg now s =
     (let lid = int (length (LEADS s)) + 1;
          ld = \<lparr>id' = lid, created_at = now, name = name_arg, email = email_arg,
                source = source_arg,
                extra = (case extra_arg of None \<Rightarrow> [] | Some d \<Rightarrow> if d = [] then [] else d),
                status = ''new'', score = None, assigned_to = None\<rparr>
      in (Inr ld, s\<lparr>LEADS := dict_set lid ld (LEADS s)\<rparr>))"

definition enrichment :: "lead \<Rightarrow> pydict" where
  "enrichment ld =
     [(''company'', VStr ''Acme Corp''),
      (''linkedin'', VStr (''https://linkedin.com/in/'' @ lower (replace CHR '' '' [] (name ld)))),
      (''industry'', VStr ''Technology''),
      (''location'', VStr ''San Francisco, CA'')]"

definition enrich_lead :: "int \<Rightarrow> state \<Rightarrow> (error + lead) \<times> state" where
  "enrich_lead lead_id s =
     (case dict_get (LEADS s) lead_id of
        None \<Rightarrow> (Inl (KeyError (VInt lead_id)), s)
      | Some ld \<Rightarrow>
          (let ld' = ld\<lparr>extra := dict_update (extra ld) (enrichment ld)\<rparr>
           in (Inr ld', s\<lparr>LEADS := dict_set lead_id ld' (LEADS s)\<rparr>)))"

definition score_lead :: "int \<Rightarrow> state \<Rightarrow> (error + lead) \<times> state" where
  "score_lead lead_id s =
     (case dict_get (LEADS s) lead_id of
        None \<Rightarrow> (Inl (KeyError (VInt lead_id)), s)
      | Some ld \<Rightarrow>
          (let company = (case dict_get (extra ld) ''company'' of None \<Rightarrow> VStr [] | Some v \<Rightarrow> v);
               ld' = (if company = VStr ''Acme Corp'' \<and> source ld = ''web_form''
                      then ld\<lparr>score := Some ''SQL''\<rparr>
                      else ld\<lparr>score := Some ''MQL''\<rparr>)
           in (Inr ld', s\<lparr>LEADS := dict_set lead_id ld' (LEADS s)\<rparr>)))"

text \<open>
  \<^verbatim>\<open>route_lead\<close>. The lead is looked up first; then the representative is read
  from the roster (\<^verbatim>\<open>%\<close> by the length of an empty roster raises), the counter is
  incremented, and the two fields of the lead object, which is the object held in
  \<^verbatim>\<open>LEADS\<close>, are assigned. The notification is formatted after that, so a
  representative without a \<^verbatim>\<open>name\<close> raises with the counter and the lead already
  changed.
\<close>

definition route_lead :: "int \<Rightarrow> state \<Rightarrow> (error + lead) \<times> state" where
  "route_lead lead_id s =
     (case dict_get (LEADS s) lead_id of
        None \<Rightarrow> (Inl (KeyError (VInt lead_id)), s)
      | Some ld \<Rightarrow>
          if SALES_REPS s = [] then (Inl ZeroDivisionError, s)
          else
            (let rep = SALES_REPS s ! nat (route_counter s mod int (length (SALES_REPS s)));
                 ld' = ld\<lparr>assigned_to := Some rep, status := ''assigned''\<rparr>;
                 s' = s\<lparr>LEADS := dict_set lead_id ld' (LEADS s),
                        route_counter := route_counter s + 1\<rparr>
             in case dict_get rep ''name'' of
                  None \<Rightarrow> (Inl (KeyError (VStr ''name'')), s')
                | Some rep_name \<Rightarrow>
                    (Inr ld',
                     s'\<lparr>stdout := stdout s' @
                          [''[Notification] Lead '' @ str_int lead_id @ '' assigned to '' @
                           str_val rep_name @ '' (email: '' @ email ld @ '')'']\<rparr>)))"

section \<open>The reporting engine\<close>

record report =
  total_leads :: int
  leads_by_source :: "(string \<times> int) list"
  leads_by_score :: "(string \<times> int) list"
  leads_by_rep :: "(pyval \<times> int) list"

record report_result =
  report_markdown :: string
  report_data :: report

text \<open>
  \<^verbatim>\<open>{rep["name"]: 0 for rep in SALES_REPS}\<close>, run over the roster with the
  dictionary built so far.
\<close>

fun rep_counters :: "pydict list \<Rightarrow> (pyval \<times> int) list \<Rightarrow> error + (pyval \<times> int) list" where
  "rep_counters [] acc = Inr acc"
| "rep_counters (rep # reps) acc =
     (case dict_get rep ''name'' of
        None \<Rightarrow> Inl (KeyError (VStr ''name''))
      | Some rep_name \<Rightarrow> rep_counters reps (dict_set rep_name 0 acc))"

text \<open>
  The three dictionaries under construction, in the order the loop body updates them:
  by source, by score, by representative.
\<close>

type_synonym counters = "(string \<times> int) list \<times> (string \<times> int) list \<times> (pyval \<times> int) list"

text \<open>
  One pass of the loop body. \<^verbatim>\<open>if lead.assigned_to:\<close> holds for a dictionary that
  is neither \<^verbatim>\<open>None\<close> nor empty; \<^verbatim>\<open>leads_by_rep[...] += 1\<close> then reads
  \<^verbatim>\<open>lead.assigned_to["name"]\<close> and the counter under that name, and each of the two
  reads raises when its key is missing.
\<close>

definition count_lead :: "lead \<Rightarrow> counters \<Rightarrow> error + counters" where
  "count_lead ld c =
     (case c of (by_source, by_score, by_rep) \<Rightarrow>
        (let by_source' =
               dict_set (source ld)
                 ((case dict_get by_source (source ld) of None \<Rightarrow> 0 | Some n \<Rightarrow> n) + 1) by_source;
             by_score' =
               (case score ld of
                  None \<Rightarrow> by_score
                | Some sc \<Rightarrow>
                    (case dict_get by_score sc of
                       None \<Rightarrow> by_score
                     | Some n \<Rightarrow> dict_set sc (n + 1) by_score))
         in case assigned_to ld of
              None \<Rightarrow> Inr (by_source', by_score', by_rep)
            | Some rep \<Rightarrow>
                if rep = [] then Inr (by_source', by_score', by_rep)
                else
                  (case dict_get rep ''name'' of
                     None \<Rightarrow> Inl (KeyError (VStr ''name''))
                   | Some rep_name \<Rightarrow>
                       (case dict_get by_rep rep_name of
                          None \<Rightarrow> Inl (KeyError rep_name)
                        | Some n \<Rightarrow> Inr (by_source', by_score', dict_set rep_name (n + 1) by_rep)))))"

text \<open>\<^verbatim>\<open>for lead in LEADS.values()\<close>: the first exception ends the loop.\<close>

fun count_leads :: "lead list \<Rightarrow> counters \<Rightarrow> error + counters" where
  "count_leads [] c = Inr c"
| "count_leads (ld # lds) c =
     (case count_lead ld c of Inl e \<Rightarrow> Inl e | Inr c' \<Rightarrow> count_leads lds c')"

definition table_rows :: "('k \<Rightarrow> string) \<Rightarrow> ('k \<times> int) list \<Rightarrow> string" where
  "table_rows show_key d =
     concat (map (\<lambda>(k, n). ''| '' @ show_key k @ '' | '' @ str_int n @ '' |\<newline>'') d)"

definition format_report_markdown :: "report \<Rightarrow> string" where
  "format_report_markdown r =
     ''# DealFlow Report\<newline>\<newline>**Total Leads:** '' @ str_int (total_leads r) @
     ''\<newline>\<newline>## Leads by Source\<newline>| Source | Count |\<newline>|--------|-------|\<newline>'' @
     table_rows (\<lambda>src. src) (leads_by_source r) @
     ''\<newline>## Leads by Score\<newline>| Score | Count |\<newline>|-------|-------|\<newline>'' @
     table_rows (\<lambda>sc. sc) (leads_by_score r) @
     ''\<newline>## Leads by Rep\<newline>| Rep | Count |\<newline>|-----|-------|\<newline>'' @
     table_rows str_val (leads_by_rep r)"

definition report_performance :: "state \<Rightarrow> (error + report_result) \<times> state" where
  "report_performance s =
     (case rep_counters (SALES_REPS s) [] of
        Inl e \<Rightarrow> (Inl e, s)
      | Inr by_rep0 \<Rightarrow>
          (case count_leads (dict_values (LEADS s)) ([], [(''MQL'', 0), (''SQL'', 0)], by_rep0) of
             Inl e \<Rightarrow> (Inl e, s)
           | Inr (by_source, by_score, by_rep) \<Rightarrow>
               (let r = \<lparr>total_leads = int (length (LEADS s)), leads_by_source = by_source,
                         leads_by_score = by_score, leads_by_rep = by_rep\<rparr>
                in (Inr \<lparr>report_markdown = format_report_markdown r, report_data = r\<rparr>, s))))"

section \<open>Reachable states\<close>

text \<open>
  The states the program is in between calls: the state after the module is loaded, and
  the state any of the five operations leaves, whether it returned or raised.
\<close>

inductive reachable :: "state \<Rightarrow> bool" where
  r_init: "reachable init"
| r_ingest: "reachable s \<Longrightarrow> reachable (snd (ingest_lead n e src ex now s))"
| r_enrich: "reachable s \<Longrightarrow> reachable (snd (enrich_lead lead_id s))"
| r_score: "reachable s \<Longrightarrow> reachable (snd (score_lead lead_id s))"
| r_route: "reachable s \<Longrightarrow> reachable (snd (route_lead lead_id s))"
| r_report: "reachable s \<Longrightarrow> reachable (snd (report_performance s))"

section \<open>Calls in sequence\<close>

text \<open>
  The calls \<^verbatim>\<open>route_lead(i)\<close> for the ids of a list, one after the other: each runs
  in the state the one before left, whether that one returned or raised, and the results
  are collected in the order of the calls.
\<close>

fun route_leads :: "int list \<Rightarrow> state \<Rightarrow> (error + lead) list \<times> state" where
  "route_leads [] s = ([], s)"
| "route_leads (lead_id # ids) s =
     (case route_lead lead_id s of (r, s') \<Rightarrow>
        (case route_leads ids s' of (rs, s'') \<Rightarrow> (r # rs, s'')))"

section \<open>Facts about dictionaries\<close>

lemma dict_get_None_iff: "dict_get d k = None \<longleftrightarrow> k \<notin> set (dict_keys d)"
  by (induction d) (auto simp: dict_keys_def split: if_splits)

lemma dict_get_set: "dict_get (dict_set k v d) k' = (if k' = k then Some v else dict_get d k')"
  by (induction d) auto

lemma dict_set_absent: "dict_get d k = None \<Longrightarrow> dict_set k v d = d @ [(k, v)]"
  by (induction d) (auto split: if_splits)

lemma dict_set_same: "dict_get d k = Some v \<Longrightarrow> dict_set k v d = d"
  by (induction d) (auto split: if_splits)

lemma dict_set_twice: "dict_set k v (dict_set k w d) = dict_set k v d"
  by (induction d) auto

lemma keys_dict_set_present: "dict_get d k = Some w \<Longrightarrow> dict_keys (dict_set k v d) = dict_keys d"
  by (induction d) (auto simp: dict_keys_def split: if_splits)

lemma length_dict_set_present: "dict_get d k = Some w \<Longrightarrow> length (dict_set k v d) = length d"
  by (induction d) (auto split: if_splits)

lemma dict_get_in_set: "dict_get d k = Some v \<Longrightarrow> (k, v) \<in> set d"
  by (induction d) (auto split: if_splits)

lemma set_dict_set_subset: "set (dict_set k v d) \<subseteq> insert (k, v) (set d)"
  by (induction d) (auto split: if_splits)

section \<open>Operations on an absent lead\<close>

text \<open>
  C1. For a lead id that is not a key of \<^verbatim>\<open>LEADS\<close>, each of
  \<^verbatim>\<open>enrich_lead\<close>, \<^verbatim>\<open>score_lead\<close> and \<^verbatim>\<open>route_lead\<close> raises the
  \<^verbatim>\<open>KeyError\<close> of the failed lookup, which carries the id, and the state it leaves
  (the store, the roster, the counter and the output) is the state before the call.
\<close>

theorem absent_lead_raises_KeyError:
  assumes "lead_id \<notin> set (dict_keys (LEADS s))"
  shows "enrich_lead lead_id s = (Inl (KeyError (VInt lead_id)), s)
       \<and> score_lead lead_id s = (Inl (KeyError (VInt lead_id)), s)
       \<and> route_lead lead_id s = (Inl (KeyError (VInt lead_id)), s)"
proof -
  from assms have "dict_get (LEADS s) lead_id = None"
    by (simp add: dict_get_None_iff)
  then show ?thesis
    by (simp add: enrich_lead_def score_lead_def route_lead_def)
qed

theorem absent_lead_raises_KeyError_witness:
  "dict_keys (LEADS (snd (ingest_lead ''Jane Doe'' ''jane@x.com'' ''web_form'' None 0 init))) = [1]
   \<and> enrich_lead 7 (snd (ingest_lead ''Jane Doe'' ''jane@x.com'' ''web_form'' None 0 init)) =
       (Inl (KeyError (VInt 7)), snd (ingest_lead ''Jane Doe'' ''jane@x.com'' ''web_form'' None 0 init))
   \<and> score_lead 7 (snd (ingest_lead ''Jane Doe'' ''jane@x.com'' ''web_form'' None 0 init)) =
       (Inl (KeyError (VInt 7)), snd (ingest_lead ''Jane Doe'' ''jane@x.com'' ''web_form'' None 0 init))
   \<and> route_lead 7 (snd (ingest_lead ''Jane Doe'' ''jane@x.com'' ''web_form'' None 0 init)) =
       (Inl (KeyError (VInt 7)), snd (ingest_lead ''Jane Doe'' ''jane@x.com'' ''web_form'' None 0 init))"
proof -
  let ?s = "snd (ingest_lead ''Jane Doe'' ''jane@x.com'' ''web_form'' None 0 init)"
  have k: "dict_keys (LEADS ?s) = [1]"
    by (simp add: ingest_lead_def init_def Let_def dict_keys_def)
  then have h: "7 \<notin> set (dict_keys (LEADS ?s))"
    by simp
  from absent_lead_raises_KeyError [OF h] k show ?thesis
    by simp
qed

section \<open>The assignment counter\<close>

lemma route_lead_counter_success:
  "route_lead lead_id s = (Inr ld, s') \<Longrightarrow> route_counter s' = route_counter s + 1"
  by (auto simp: route_lead_def Let_def split: option.splits if_splits)

lemma route_lead_counter_mono: "route_counter s \<le> route_counter (snd (route_lead lead_id s))"
  by (simp add: route_lead_def Let_def split: option.splits)

lemma ingest_lead_counter: "route_counter (snd (ingest_lead n e src ex now s)) = route_counter s"
  by (simp add: ingest_lead_def Let_def)

lemma enrich_lead_counter: "route_counter (snd (enrich_lead lead_id s)) = route_counter s"
  by (simp add: enrich_lead_def Let_def split: option.splits)

lemma score_lead_counter: "route_counter (snd (score_lead lead_id s)) = route_counter s"
  by (simp add: score_lead_def Let_def split: option.splits)

lemma report_performance_state: "snd (report_performance s) = s"
  by (simp add: report_performance_def Let_def split: sum.splits prod.splits)

section \<open>Scoring\<close>

text \<open>
  C7. For a lead that is in the store, \<^verbatim>\<open>score_lead\<close> returns, and the score of the
  lead it returns and stores is decided by the entry \<^verbatim>\<open>company\<close> of \<open>extra\<close>
  and by \<open>source\<close> alone: \<^verbatim>\<open>SQL\<close> when the company is the string
  \<^verbatim>\<open>Acme Corp\<close> and the source is \<^verbatim>\<open>web_form\<close>, \<^verbatim>\<open>MQL\<close> in every other
  case, a missing company among them. No other field of the lead changes.
\<close>

theorem score_lead_total:
  assumes "dict_get (LEADS s) lead_id = Some ld"
  shows "\<exists>ld'. fst (score_lead lead_id s) = Inr ld'
           \<and> score ld' =
               Some (if dict_get (extra ld) ''company'' = Some (VStr ''Acme Corp'')
                        \<and> source ld = ''web_form''
                     then ''SQL'' else ''MQL'')
           \<and> ld' = ld\<lparr>score := score ld'\<rparr>
           \<and> LEADS (snd (score_lead lead_id s)) = dict_set lead_id ld' (LEADS s)"
  using assms by (auto simp: score_lead_def Let_def split: option.splits)

theorem score_lead_total_witness:
  "score (projr (fst (score_lead 1
      (snd (ingest_lead ''Jane Doe'' ''jane@x.com'' ''web_form''
             (Some [(''company'', VStr ''Acme Corp'')]) 0 init))))) = Some ''SQL''
   \<and> score (projr (fst (score_lead 1
      (snd (ingest_lead ''Jane Doe'' ''jane@x.com'' ''web_form'' None 0 init))))) = Some ''MQL''"
proof -
  let ?ex = "Some [(''company'', VStr ''Acme Corp'')]"
  let ?s = "snd (ingest_lead ''Jane Doe'' ''jane@x.com'' ''web_form'' ?ex 0 init)"
  let ?t = "snd (ingest_lead ''Jane Doe'' ''jane@x.com'' ''web_form'' None 0 init)"
  let ?ld = "\<lparr>id' = 1, created_at = 0, name = ''Jane Doe'', email = ''jane@x.com'',
              source = ''web_form'', extra = [(''company'', VStr ''Acme Corp'')],
              status = ''new'', score = None, assigned_to = None\<rparr>"
  have s: "dict_get (LEADS ?s) 1 = Some ?ld"
    by (simp add: ingest_lead_def init_def Let_def)
  have t: "dict_get (LEADS ?t) 1 = Some (?ld\<lparr>extra := []\<rparr>)"
    by (simp add: ingest_lead_def init_def Let_def)
  from score_lead_total [OF s] score_lead_total [OF t] show ?thesis
    by auto
qed

section \<open>Reporting reads only\<close>

text \<open>
  C10. \<^verbatim>\<open>report_performance\<close> returns the state it was given, whether it returns
  a report or raises: the store, the roster and the counter are as before. A second call
  right after the first gives the same result.
\<close>

theorem report_performance_pure:
  "LEADS (snd (report_performance s)) = LEADS s
   \<and> SALES_REPS (snd (report_performance s)) = SALES_REPS s
   \<and> route_counter (snd (report_performance s)) = route_counter s
   \<and> snd (report_performance s) = s
   \<and> report_performance (snd (report_performance s)) = report_performance s"
  by (simp add: report_performance_state)

theorem report_performance_pure_witness:
  "snd (report_performance init) = init
   \<and> fst (report_performance (snd (report_performance init))) = fst (report_performance init)"
  using report_performance_pure [of init] by simp

section \<open>Totals of the report\<close>

lemma sum_dict_set:
  fixes d :: "('k \<times> int) list"
  shows "sum_list (dict_values (dict_set k v d)) =
         sum_list (dict_values d) - (case dict_get d k of None \<Rightarrow> 0 | Some n \<Rightarrow> n) + v"
  by (induction d) (auto simp: dict_values_def)

lemma count_lead_sums:
  assumes "count_lead ld (a, b, c) = Inr (a', b', c')"
  shows "sum_list (dict_values a') = sum_list (dict_values a) + 1"
    and "sum_list (dict_values b') \<le> sum_list (dict_values b) + 1"
  using assms
  by (auto simp: count_lead_def Let_def sum_dict_set split: option.splits if_splits)

lemma count_leads_sums:
  "count_leads lds (a, b, c) = Inr (a', b', c') \<Longrightarrow>
     sum_list (dict_values a') = sum_list (dict_values a) + int (length lds)
     \<and> sum_list (dict_values b') \<le> sum_list (dict_values b) + int (length lds)"
proof (induction lds arbitrary: a b c)
  case Nil
  then show ?case by simp
next
  case (Cons ld lds)
  from Cons.prems obtain a1 b1 c1 where
    step: "count_lead ld (a, b, c) = Inr (a1, b1, c1)" and
    rest: "count_leads lds (a1, b1, c1) = Inr (a', b', c')"
    by (auto split: sum.splits)
  from Cons.IH [OF rest] count_lead_sums [OF step] show ?case
    by simp
qed

text \<open>
  C5. Whenever \<^verbatim>\<open>report_performance\<close> returns a report, the counts by source add
  up to \<^verbatim>\<open>total_leads\<close>, \<^verbatim>\<open>total_leads\<close> is the number of entries of
  \<^verbatim>\<open>LEADS\<close>, and the counts by score add up to at most \<^verbatim>\<open>total_leads\<close>.
\<close>

theorem report_totals:
  assumes "fst (report_performance s) = Inr res"
  shows "sum_list (dict_values (leads_by_source (report_data res))) = total_leads (report_data res)
       \<and> total_leads (report_data res) = int (length (LEADS s))
       \<and> sum_list (dict_values (leads_by_score (report_data res))) \<le> total_leads (report_data res)"
proof -
  from assms obtain by_rep0 a b c where
    loop: "count_leads (dict_values (LEADS s)) ([], [(''MQL'', 0), (''SQL'', 0)], by_rep0) = Inr (a, b, c)"
    and res: "report_data res = \<lparr>total_leads = int (length (LEADS s)), leads_by_source = a,
                leads_by_score = b, leads_by_rep = c\<rparr>"
    by (auto simp: report_performance_def Let_def split: sum.splits prod.splits)
  from count_leads_sums [OF loop] res show ?thesis
    by (simp add: dict_values_def)
qed


theorem report_totals_witness:
  "\<not> isl (fst (report_performance
      (snd (score_lead 1 (snd (ingest_lead ''Bo'' ''bo@x.com'' ''referral'' None 1
         (snd (ingest_lead ''Jane Doe'' ''jane@x.com'' ''web_form'' None 0 init))))))))
   \<and> sum_list (dict_values (leads_by_source (report_data (projr (fst (report_performance
      (snd (score_lead 1 (snd (ingest_lead ''Bo'' ''bo@x.com'' ''referral'' None 1
         (snd (ingest_lead ''Jane Doe'' ''jane@x.com'' ''web_form'' None 0 init)))))))))))) = 2
   \<and> sum_list (dict_values (leads_by_score (report_data (projr (fst (report_performance
      (snd (score_lead 1 (snd (ingest_lead ''Bo'' ''bo@x.com'' ''referral'' None 1
         (snd (ingest_lead ''Jane Doe'' ''jane@x.com'' ''web_form'' None 0 init)))))))))))) \<le> 2"
proof -
  let ?s = "snd (score_lead 1 (snd (ingest_lead ''Bo'' ''bo@x.com'' ''referral'' None 1
         (snd (ingest_lead ''Jane Doe'' ''jane@x.com'' ''web_form'' None 0 init)))))"
  have len: "length (LEADS ?s) = 2"
    by (simp add: score_lead_def ingest_lead_def init_def Let_def)
  have ok: "\<not> isl (fst (report_performance ?s))"
    by (simp add: report_performance_def count_lead_def dict_values_def score_lead_def
        ingest_lead_def init_def Let_def)
  then obtain res where res: "fst (report_performance ?s) = Inr res"
    by (cases "fst (report_performance ?s)") auto
  from report_totals [OF res] len res ok show ?thesis
    by simp
qed

section \<open>When the report completes\<close>

lemma keys_dict_set: "set (dict_keys (dict_set k v d)) = insert k (set (dict_keys d))"
  by (induction d) (auto simp: dict_keys_def rev_image_eqI split: if_splits)

lemma values_dict_set: "set (dict_values (dict_set k v d)) \<subseteq> insert v (set (dict_values d))"
proof -
  have "snd ` set (dict_set k v d) \<subseteq> snd ` insert (k, v) (set d)"
    by (rule image_mono) (rule set_dict_set_subset)
  then show ?thesis
    by (simp add: dict_values_def)
qed

lemma rep_counters_ok:
  assumes "\<forall>rep \<in> set reps. dict_get rep ''name'' \<noteq> None"
  shows "\<exists>r. rep_counters reps acc = Inr r
           \<and> set (dict_keys r) =
               set (dict_keys acc) \<union> {nm. \<exists>rep \<in> set reps. dict_get rep ''name'' = Some nm}
           \<and> ((\<forall>n \<in> set (dict_values acc). n = 0) \<longrightarrow> (\<forall>n \<in> set (dict_values r). n = 0))"
  using assms
proof (induction reps arbitrary: acc)
  case Nil
  then show ?case by simp
next
  case (Cons rep reps)
  then obtain nm where nm: "dict_get rep ''name'' = Some nm"
    by auto
  from Cons.prems have "\<forall>rep \<in> set reps. dict_get rep ''name'' \<noteq> None"
    by simp
  from Cons.IH [OF this, of "dict_set nm 0 acc"] obtain r where
    r: "rep_counters reps (dict_set nm 0 acc) = Inr r"
    and k: "set (dict_keys r) = set (dict_keys (dict_set nm 0 acc)) \<union>
              {nm. \<exists>rep \<in> set reps. dict_get rep ''name'' = Some nm}"
    and z: "(\<forall>n \<in> set (dict_values (dict_set nm 0 acc)). n = 0) \<longrightarrow>
              (\<forall>n \<in> set (dict_values r). n = 0)"
    by blast
  have "(\<forall>n \<in> set (dict_values acc). n = 0) \<longrightarrow> (\<forall>n \<in> set (dict_values r). n = 0)"
    using z values_dict_set [of nm 0 acc] by blast
  with r k nm show ?case
    by (auto simp: keys_dict_set)
qed


lemma count_lead_ok:
  assumes "\<forall>rep. assigned_to ld = Some rep \<and> rep \<noteq> [] \<longrightarrow>
             (\<exists>nm. dict_get rep ''name'' = Some nm \<and> nm \<in> set (dict_keys c))"
  shows "\<exists>a' b' c'. count_lead ld (a, b, c) = Inr (a', b', c') \<and> set (dict_keys c') = set (dict_keys c)"
proof (cases "assigned_to ld")
  case None
  then show ?thesis by (simp add: count_lead_def Let_def)
next
  case (Some rep)
  show ?thesis
  proof (cases "rep = []")
    case True
    with Some show ?thesis by (simp add: count_lead_def Let_def)
  next
    case False
    with Some assms obtain nm where nm: "dict_get rep ''name'' = Some nm" "nm \<in> set (dict_keys c)"
      by blast
    then obtain n where "dict_get c nm = Some n"
      using dict_get_None_iff [of c nm] by (cases "dict_get c nm") auto
    with Some False nm show ?thesis
      by (auto simp: count_lead_def Let_def keys_dict_set)
  qed
qed

lemma count_leads_ok:
  assumes "\<forall>ld \<in> set lds. \<forall>rep. assigned_to ld = Some rep \<and> rep \<noteq> [] \<longrightarrow>
             (\<exists>nm. dict_get rep ''name'' = Some nm \<and> nm \<in> set (dict_keys c))"
  shows "\<exists>a' b' c'. count_leads lds (a, b, c) = Inr (a', b', c')"
  using assms
proof (induction lds arbitrary: a b c)
  case Nil
  then show ?case by simp
next
  case (Cons ld lds)
  from Cons.prems have "\<forall>rep. assigned_to ld = Some rep \<and> rep \<noteq> [] \<longrightarrow>
             (\<exists>nm. dict_get rep ''name'' = Some nm \<and> nm \<in> set (dict_keys c))"
    by simp
  from count_lead_ok [OF this, of a b] obtain a1 b1 c1 where
    step: "count_lead ld (a, b, c) = Inr (a1, b1, c1)" and k: "set (dict_keys c1) = set (dict_keys c)"
    by blast
  from Cons.prems k have "\<forall>ld \<in> set lds. \<forall>rep. assigned_to ld = Some rep \<and> rep \<noteq> [] \<longrightarrow>
             (\<exists>nm. dict_get rep ''name'' = Some nm \<and> nm \<in> set (dict_keys c1))"
    by simp
  from Cons.IH [OF this, of a1 b1] step show ?case
    by auto
qed


section \<open>What each operation does to the stored leads\<close>

lemma dict_get_in_values: "dict_get d k = Some v \<Longrightarrow> v \<in> set (dict_values d)"
  by (auto simp: dict_values_def dest!: dict_get_in_set intro: rev_image_eqI)

lemma in_values_dict_set: "x \<in> set (dict_values (dict_set k v d)) \<Longrightarrow> x = v \<or> x \<in> set (dict_values d)"
  using values_dict_set [of k v d] by blast

lemma ingest_lead_leads:
  assumes "ld' \<in> set (dict_values (LEADS (snd (ingest_lead n e src ex now s))))"
  shows "ld' \<in> set (dict_values (LEADS s)) \<or> ld' = projr (fst (ingest_lead n e src ex now s))"
  using assms by (auto simp: ingest_lead_def Let_def dest: in_values_dict_set)

lemma enrich_lead_leads:
  assumes "ld' \<in> set (dict_values (LEADS (snd (enrich_lead lead_id s))))"
  shows "ld' \<in> set (dict_values (LEADS s))
       \<or> (\<exists>ld \<in> set (dict_values (LEADS s)). ld' = ld\<lparr>extra := dict_update (extra ld) (enrichment ld)\<rparr>)"
proof (cases "dict_get (LEADS s) lead_id")
  case None
  with assms show ?thesis by (simp add: enrich_lead_def)
next
  case (Some ld)
  with assms have "ld' = ld\<lparr>extra := dict_update (extra ld) (enrichment ld)\<rparr>
      \<or> ld' \<in> set (dict_values (LEADS s))"
    by (auto simp: enrich_lead_def Let_def dest: in_values_dict_set)
  with dict_get_in_values [OF Some] show ?thesis by blast
qed

lemma score_lead_leads:
  assumes "ld' \<in> set (dict_values (LEADS (snd (score_lead lead_id s))))"
  shows "ld' \<in> set (dict_values (LEADS s))
       \<or> (\<exists>ld \<in> set (dict_values (LEADS s)). \<exists>sc. ld' = ld\<lparr>score := Some sc\<rparr>)"
proof (cases "dict_get (LEADS s) lead_id")
  case None
  with assms show ?thesis by (simp add: score_lead_def)
next
  case (Some ld)
  with assms have "(\<exists>sc. ld' = ld\<lparr>score := Some sc\<rparr>) \<or> ld' \<in> set (dict_values (LEADS s))"
    by (auto simp: score_lead_def Let_def dest: in_values_dict_set split: if_splits)
  with dict_get_in_values [OF Some] show ?thesis by blast
qed

lemma roster_index: "reps \<noteq> [] \<Longrightarrow> reps ! nat (c mod int (length reps)) \<in> set reps"
  by (simp add: nat_less_iff)

lemma route_lead_leads:
  assumes "ld' \<in> set (dict_values (LEADS (snd (route_lead lead_id s))))"
  shows "ld' \<in> set (dict_values (LEADS s))
       \<or> (\<exists>ld \<in> set (dict_values (LEADS s)). \<exists>rep \<in> set (SALES_REPS s).
             ld' = ld\<lparr>assigned_to := Some rep, status := ''assigned''\<rparr>)"
proof (cases "dict_get (LEADS s) lead_id")
  case None
  with assms show ?thesis by (simp add: route_lead_def)
next
  case (Some ld)
  show ?thesis
  proof (cases "SALES_REPS s = []")
    case True
    with Some assms show ?thesis by (simp add: route_lead_def)
  next
    case False
    let ?rep = "SALES_REPS s ! nat (route_counter s mod int (length (SALES_REPS s)))"
    from Some False assms
    have "ld' = ld\<lparr>assigned_to := Some ?rep, status := ''assigned''\<rparr>
        \<or> ld' \<in> set (dict_values (LEADS s))"
      by (auto simp: route_lead_def Let_def dest: in_values_dict_set split: option.splits)
    with dict_get_in_values [OF Some] roster_index [OF False] show ?thesis by blast
  qed
qed

lemma ingest_lead_roster: "SALES_REPS (snd (ingest_lead n e src ex now s)) = SALES_REPS s"
  by (simp add: ingest_lead_def Let_def)

lemma enrich_lead_roster: "SALES_REPS (snd (enrich_lead lead_id s)) = SALES_REPS s"
  by (simp add: enrich_lead_def Let_def split: option.splits)

lemma score_lead_roster: "SALES_REPS (snd (score_lead lead_id s)) = SALES_REPS s"
  by (simp add: score_lead_def Let_def split: option.splits)

lemma route_lead_roster: "SALES_REPS (snd (route_lead lead_id s)) = SALES_REPS s"
  by (simp add: route_lead_def Let_def split: option.splits)

lemma ingest_lead_result:
  "assigned_to (projr (fst (ingest_lead n e src ex now s))) = None
   \<and> status (projr (fst (ingest_lead n e src ex now s))) = ''new''
   \<and> score (projr (fst (ingest_lead n e src ex now s))) = None"
  by (simp add: ingest_lead_def Let_def)

lemma reachable_roster:
  "reachable s \<Longrightarrow>
     SALES_REPS s = SALES_REPS init
     \<and> (\<forall>ld \<in> set (dict_values (LEADS s)). \<forall>rep. assigned_to ld = Some rep \<longrightarrow> rep \<in> set (SALES_REPS init))"
proof (induction rule: reachable.induct)
  case r_init
  show ?case by (simp add: init_def dict_values_def)
next
  case (r_ingest s n e src ex now)
  then show ?case
    using ingest_lead_result [of n e src ex now s]
    by (auto simp: ingest_lead_roster dest!: ingest_lead_leads)
next
  case (r_enrich s lead_id)
  then show ?case
    by (auto simp: enrich_lead_roster dest!: enrich_lead_leads)
next
  case (r_score s lead_id)
  then show ?case
    by (auto simp: score_lead_roster dest!: score_lead_leads)
next
  case (r_route s lead_id)
  then show ?case
    by (auto simp: route_lead_roster dest!: route_lead_leads)
next
  case (r_report s)
  then show ?case by (simp add: report_performance_state)
qed


lemma init_roster_named: "\<forall>rep \<in> set (SALES_REPS init). dict_get rep ''name'' \<noteq> None"
  by (simp add: init_def)

text \<open>
  C2, as the code has it. \<^verbatim>\<open>report_performance\<close> returns a report, and leaves the
  state as it was, in every reachable state, and more generally in every state where each
  roster entry has a \<^verbatim>\<open>name\<close> and each lead with a non-empty \<open>assigned_to\<close>
  carries the name of a roster entry. On an empty store the total is 0, there is no count
  by source, and every count by score and by representative is 0.
\<close>

theorem report_performance_completes:
  assumes "reachable s
         \<or> ((\<forall>rep \<in> set (SALES_REPS s). dict_get rep ''name'' \<noteq> None)
            \<and> (\<forall>ld \<in> set (dict_values (LEADS s)). \<forall>rep. assigned_to ld = Some rep \<and> rep \<noteq> [] \<longrightarrow>
                 (\<exists>r \<in> set (SALES_REPS s). dict_get r ''name'' = dict_get rep ''name'')))"
  shows "\<exists>res. report_performance s = (Inr res, s)
           \<and> (LEADS s = [] \<longrightarrow>
                total_leads (report_data res) = 0
                \<and> leads_by_source (report_data res) = []
                \<and> (\<forall>n \<in> set (dict_values (leads_by_score (report_data res))). n = 0)
                \<and> (\<forall>n \<in> set (dict_values (leads_by_rep (report_data res))). n = 0))"
proof -
  have named: "\<forall>rep \<in> set (SALES_REPS s). dict_get rep ''name'' \<noteq> None"
    using assms reachable_roster [of s] init_roster_named by auto
  have known: "\<forall>ld \<in> set (dict_values (LEADS s)). \<forall>rep. assigned_to ld = Some rep \<and> rep \<noteq> [] \<longrightarrow>
                 (\<exists>r \<in> set (SALES_REPS s). dict_get r ''name'' = dict_get rep ''name'')"
    using assms reachable_roster [of s] by auto
  from rep_counters_ok [OF named, of "[]"] obtain by_rep0 where
    r0: "rep_counters (SALES_REPS s) [] = Inr by_rep0"
    and k0: "set (dict_keys by_rep0) = {nm. \<exists>rep \<in> set (SALES_REPS s). dict_get rep ''name'' = Some nm}"
    and z0: "\<forall>n \<in> set (dict_values by_rep0). n = 0"
    by (auto simp: dict_keys_def dict_values_def)
  have "\<forall>ld \<in> set (dict_values (LEADS s)). \<forall>rep. assigned_to ld = Some rep \<and> rep \<noteq> [] \<longrightarrow>
          (\<exists>nm. dict_get rep ''name'' = Some nm \<and> nm \<in> set (dict_keys by_rep0))"
  proof (intro ballI allI impI)
    fix ld rep
    assume ld: "ld \<in> set (dict_values (LEADS s))" and rep: "assigned_to ld = Some rep \<and> rep \<noteq> []"
    with known obtain r where r: "r \<in> set (SALES_REPS s)" "dict_get r ''name'' = dict_get rep ''name''"
      by blast
    with named obtain nm where nm: "dict_get r ''name'' = Some nm"
      by (cases "dict_get r ''name''") fastforce+
    with r have "dict_get rep ''name'' = Some nm"
      by simp
    moreover from nm r k0 have "nm \<in> set (dict_keys by_rep0)"
      by blast
    ultimately show "\<exists>nm. dict_get rep ''name'' = Some nm \<and> nm \<in> set (dict_keys by_rep0)"
      by blast
  qed
  from count_leads_ok [OF this, of "[]" "[(''MQL'', 0), (''SQL'', 0)]"] obtain a b c where
    loop: "count_leads (dict_values (LEADS s)) ([], [(''MQL'', 0), (''SQL'', 0)], by_rep0) = Inr (a, b, c)"
    by blast
  let ?r = "\<lparr>total_leads = int (length (LEADS s)), leads_by_source = a,
             leads_by_score = b, leads_by_rep = c\<rparr>"
  have res: "report_performance s =
      (Inr \<lparr>report_markdown = format_report_markdown ?r, report_data = ?r\<rparr>, s)"
    using r0 loop by (simp add: report_performance_def Let_def)
  have "LEADS s = [] \<longrightarrow> a = [] \<and> b = [(''MQL'', 0), (''SQL'', 0)] \<and> c = by_rep0"
    using loop by (auto simp: dict_values_def)
  with res z0 show ?thesis
    by (auto simp: dict_values_def)
qed

theorem report_performance_completes_witness:
  "\<not> isl (fst (report_performance
       (snd (route_lead 1 (snd (ingest_lead ''Jane Doe'' ''jane@x.com'' ''web_form'' None 0 init))))))
   \<and> leads_by_rep (report_data (projr (fst (report_performance init)))) =
       [(VStr ''Alice'', 0), (VStr ''Bob'', 0), (VStr ''Carol'', 0)]"
proof -
  let ?s = "snd (route_lead 1 (snd (ingest_lead ''Jane Doe'' ''jane@x.com'' ''web_form'' None 0 init)))"
  have "reachable ?s"
    by (intro reachable.intros)
  with report_performance_completes [of ?s] have a: "\<not> isl (fst (report_performance ?s))"
    by auto
  have "reachable init"
    by (rule r_init)
  with report_performance_completes [of init]
  have "\<not> isl (fst (report_performance init))"
    by auto
  then have "leads_by_rep (report_data (projr (fst (report_performance init)))) =
       [(VStr ''Alice'', 0), (VStr ''Bob'', 0), (VStr ''Carol'', 0)]"
    by (simp add: report_performance_def init_def dict_values_def Let_def)
  with a show ?thesis by simp
qed

text \<open>
  The claim as written fails for a lead assigned to an agent the roster does not have:
  \<^verbatim>\<open>leads_by_rep[lead.assigned_to["name"]] += 1\<close> raises the \<^verbatim>\<open>KeyError\<close>
  of the missing counter, and no report is returned.
\<close>

theorem report_performance_unknown_agent_counterexample:
  "fst (report_performance
     (init\<lparr>LEADS :=
        [(1, \<lparr>id' = 1, created_at = 0, name = ''Jane Doe'', email = ''jane@x.com'',
              source = ''web_form'', extra = [], status = ''assigned'', score = None,
              assigned_to = Some [(''id'', VInt 4), (''name'', VStr ''Dave'')]\<rparr>)]\<rparr>))
   = Inl (KeyError (VStr ''Dave''))"
  by (simp add: report_performance_def init_def dict_values_def count_lead_def)

section \<open>The assignment counter, call by call\<close>

lemma route_existing_returns:
  assumes "reachable s" and "lead_id \<in> set (dict_keys (LEADS s))"
  shows "\<exists>ld s'. route_lead lead_id s = (Inr ld, s') \<and> route_counter s' = route_counter s + 1"
proof -
  from assms(2) obtain ld where ld: "dict_get (LEADS s) lead_id = Some ld"
    using dict_get_None_iff [of "LEADS s" lead_id] by (cases "dict_get (LEADS s) lead_id") auto
  from assms(1) have reps: "SALES_REPS s = SALES_REPS init"
    using reachable_roster by blast
  then have ne: "SALES_REPS s \<noteq> []"
    by (simp add: init_def)
  let ?rep = "SALES_REPS s ! nat (route_counter s mod int (length (SALES_REPS s)))"
  from roster_index [OF ne] reps init_roster_named obtain nm where
    nm: "dict_get ?rep ''name'' = Some nm"
    by (cases "dict_get ?rep ''name''") fastforce+
  from ld ne nm show ?thesis
    by (simp add: route_lead_def Let_def)
qed

lemma route_stored_counter:
  assumes "lead_id \<in> set (dict_keys (LEADS s))" and "SALES_REPS s \<noteq> []"
  shows "route_counter (snd (route_lead lead_id s)) = route_counter s + 1"
proof -
  from assms(1) obtain ld where "dict_get (LEADS s) lead_id = Some ld"
    using dict_get_None_iff [of "LEADS s" lead_id] by (cases "dict_get (LEADS s) lead_id") auto
  with assms(2) show ?thesis
    by (simp add: route_lead_def Let_def split: option.splits)
qed

text \<open>
  C3, as the code has it. \<^verbatim>\<open>route_counter\<close> is 0 when the module is loaded. In a
  reachable state every call of \<^verbatim>\<open>route_lead\<close> for an id that is in the store
  returns a lead and leaves the counter greater by exactly 1; in any state, a call that
  returns a lead, and more generally a call for a stored id with a non-empty roster, leaves
  the counter greater by exactly 1. A call for an id that is not in the store raises at
  the lookup, before the increment, and leaves the counter as it was. No call of
  \<^verbatim>\<open>route_lead\<close> lowers the counter, and the other four operations leave it
  unchanged.
\<close>

theorem route_counter_steps:
  "route_counter init = 0
   \<and> (reachable s \<and> lead_id \<in> set (dict_keys (LEADS s)) \<longrightarrow>
        (\<exists>ld s'. route_lead lead_id s = (Inr ld, s') \<and> route_counter s' = route_counter s + 1))
   \<and> (lead_id \<in> set (dict_keys (LEADS s)) \<and> SALES_REPS s \<noteq> [] \<longrightarrow>
        route_counter (snd (route_lead lead_id s)) = route_counter s + 1)
   \<and> (\<forall>ld s'. route_lead lead_id s = (Inr ld, s') \<longrightarrow> route_counter s' = route_counter s + 1)
   \<and> (lead_id \<notin> set (dict_keys (LEADS s)) \<longrightarrow>
        fst (route_lead lead_id s) = Inl (KeyError (VInt lead_id))
        \<and> route_counter (snd (route_lead lead_id s)) = route_counter s)
   \<and> route_counter s \<le> route_counter (snd (route_lead lead_id s))
   \<and> route_counter (snd (ingest_lead n e src ex now s)) = route_counter s
   \<and> route_counter (snd (enrich_lead lead_id s)) = route_counter s
   \<and> route_counter (snd (score_lead lead_id s)) = route_counter s
   \<and> route_counter (snd (report_performance s)) = route_counter s"
proof -
  have absent: "lead_id \<notin> set (dict_keys (LEADS s)) \<longrightarrow>
      fst (route_lead lead_id s) = Inl (KeyError (VInt lead_id))
      \<and> route_counter (snd (route_lead lead_id s)) = route_counter s"
    by (auto simp: route_lead_def dict_get_None_iff [symmetric])
  have stored: "reachable s \<and> lead_id \<in> set (dict_keys (LEADS s)) \<longrightarrow>
      (\<exists>ld s'. route_lead lead_id s = (Inr ld, s') \<and> route_counter s' = route_counter s + 1)"
    using route_existing_returns [of s lead_id] by blast
  have roster: "lead_id \<in> set (dict_keys (LEADS s)) \<and> SALES_REPS s \<noteq> [] \<longrightarrow>
      route_counter (snd (route_lead lead_id s)) = route_counter s + 1"
    using route_stored_counter [of lead_id s] by blast
  have start: "route_counter init = 0"
    by (simp add: init_def)
  have returned: "\<forall>ld s'. route_lead lead_id s = (Inr ld, s') \<longrightarrow> route_counter s' = route_counter s + 1"
    by (simp add: route_lead_counter_success)
  have others: "route_counter s \<le> route_counter (snd (route_lead lead_id s))
      \<and> route_counter (snd (ingest_lead n e src ex now s)) = route_counter s
      \<and> route_counter (snd (enrich_lead lead_id s)) = route_counter s
      \<and> route_counter (snd (score_lead lead_id s)) = route_counter s
      \<and> route_counter (snd (report_performance s)) = route_counter s"
    by (simp add: route_lead_counter_mono ingest_lead_counter enrich_lead_counter
        score_lead_counter report_performance_state)
  from start stored roster returned absent others show ?thesis
    by (elim conjE) (intro conjI; assumption)
qed

theorem route_counter_steps_witness:
  "\<not> isl (fst (route_lead 1 (snd (ingest_lead ''Jane Doe'' ''jane@x.com'' ''web_form'' None 0 init))))
   \<and> route_counter
       (snd (route_lead 1 (snd (ingest_lead ''Jane Doe'' ''jane@x.com'' ''web_form'' None 0 init)))) = 1
   \<and> isl (fst (route_lead 2 (snd (ingest_lead ''Jane Doe'' ''jane@x.com'' ''web_form'' None 0 init))))
   \<and> route_counter
       (snd (route_lead 2 (snd (ingest_lead ''Jane Doe'' ''jane@x.com'' ''web_form'' None 0 init)))) = 0"
proof -
  let ?s = "snd (ingest_lead ''Jane Doe'' ''jane@x.com'' ''web_form'' None 0 init)"
  have r: "reachable ?s"
    by (intro reachable.intros)
  have k: "dict_keys (LEADS ?s) = [1]"
    by (simp add: ingest_lead_def init_def Let_def dict_keys_def)
  have c0: "route_counter ?s = 0"
    by (simp add: ingest_lead_def init_def Let_def)
  from k have in1: "1 \<in> set (dict_keys (LEADS ?s))" and out2: "2 \<notin> set (dict_keys (LEADS ?s))"
    by simp_all
  from route_counter_steps [of ?s 1] r in1 obtain ld s' where
    "route_lead 1 ?s = (Inr ld, s')" "route_counter s' = route_counter ?s + 1"
    by blast
  with c0 have one: "\<not> isl (fst (route_lead 1 ?s)) \<and> route_counter (snd (route_lead 1 ?s)) = 1"
    by simp
  from route_counter_steps [of ?s 2] out2
  have "fst (route_lead 2 ?s) = Inl (KeyError (VInt 2))
      \<and> route_counter (snd (route_lead 2 ?s)) = route_counter ?s"
    by blast
  with c0 have two: "isl (fst (route_lead 2 ?s)) \<and> route_counter (snd (route_lead 2 ?s)) = 0"
    by simp
  from one two show ?thesis
    by simp
qed

text \<open>
  The claim as written fails on the first call of a fresh process: routing lead 1 in the
  empty store raises, and the counter is still 0.
\<close>

theorem route_counter_absent_counterexample:
  "fst (route_lead 1 init) = Inl (KeyError (VInt 1))
   \<and> route_counter (snd (route_lead 1 init)) \<noteq> route_counter init + 1"
  by (simp add: route_lead_def init_def)

section \<open>Ingestion\<close>

lemma upto_snoc: "[1..1 + int n] = [1..int n] @ [int n + 1]"
  using upto_rec2 [of 1 "1 + int n"] by (simp add: add.commute)

lemma ingest_lead_append:
  assumes "dict_keys (LEADS s) = [1..int (length (LEADS s))]"
  shows "snd (ingest_lead n e src ex now s) =
           s\<lparr>LEADS := LEADS s @ [(int (length (LEADS s)) + 1, projr (fst (ingest_lead n e src ex now s)))]\<rparr>"
proof -
  have "int (length (LEADS s)) + 1 \<notin> set (dict_keys (LEADS s))"
    by (simp add: assms)
  then have "dict_get (LEADS s) (int (length (LEADS s)) + 1) = None"
    by (simp add: dict_get_None_iff)
  then show ?thesis
    by (simp add: ingest_lead_def Let_def dict_set_absent)
qed

lemma enrich_lead_keys:
  "dict_keys (LEADS (snd (enrich_lead lead_id s))) = dict_keys (LEADS s)"
  by (simp add: enrich_lead_def Let_def keys_dict_set_present split: option.splits)

lemma score_lead_keys:
  "dict_keys (LEADS (snd (score_lead lead_id s))) = dict_keys (LEADS s)"
  by (simp add: score_lead_def Let_def keys_dict_set_present split: option.splits)

lemma route_lead_keys:
  "dict_keys (LEADS (snd (route_lead lead_id s))) = dict_keys (LEADS s)"
  by (simp add: route_lead_def Let_def keys_dict_set_present split: option.splits)

lemma length_keys: "length (dict_keys d) = length d"
  by (simp add: dict_keys_def)

lemma reachable_keys: "reachable s \<Longrightarrow> dict_keys (LEADS s) = [1..int (length (LEADS s))]"
proof (induction rule: reachable.induct)
  case r_init
  show ?case by (simp add: init_def dict_keys_def)
next
  case (r_ingest s n e src ex now)
  from ingest_lead_append [OF r_ingest.IH, of n e src ex now] r_ingest.IH show ?case
    by (simp add: dict_keys_def upto_snoc)
next
  case (r_enrich s lead_id)
  then show ?case
    using length_keys [of "LEADS (snd (enrich_lead lead_id s))"] length_keys [of "LEADS s"]
    by (simp add: enrich_lead_keys)
next
  case (r_score s lead_id)
  then show ?case
    using length_keys [of "LEADS (snd (score_lead lead_id s))"] length_keys [of "LEADS s"]
    by (simp add: score_lead_keys)
next
  case (r_route s lead_id)
  then show ?case
    using length_keys [of "LEADS (snd (route_lead lead_id s))"] length_keys [of "LEADS s"]
    by (simp add: route_lead_keys)
next
  case (r_report s)
  then show ?case by (simp add: report_performance_state)
qed

text \<open>
  C6. In a reachable state the keys of \<^verbatim>\<open>LEADS\<close> are \<open>1, \<dots>, len(LEADS)\<close>
  in this order: these are the ids issued so far, and no operation removes one. There
  \<^verbatim>\<open>ingest_lead\<close> returns a lead with status \<^verbatim>\<open>new\<close>, no score and no
  assignment, carrying the name, email and source it was given, whose id is
  \<open>len(LEADS) + 1\<close> and so is not a key of the store; the state it leaves differs from
  the state before by this one entry, appended to \<^verbatim>\<open>LEADS\<close>.
\<close>

theorem ingest_lead_new:
  assumes "reachable s"
  shows "\<exists>ld. ingest_lead n e src ex now s = (Inr ld, s\<lparr>LEADS := LEADS s @ [(id' ld, ld)]\<rparr>)
           \<and> status ld = ''new'' \<and> score ld = None \<and> assigned_to ld = None
           \<and> name ld = n \<and> email ld = e \<and> source ld = src
           \<and> id' ld = int (length (LEADS s)) + 1
           \<and> dict_keys (LEADS s) = [1..int (length (LEADS s))]
           \<and> id' ld \<notin> set (dict_keys (LEADS s))"
proof -
  have k: "dict_keys (LEADS s) = [1..int (length (LEADS s))]"
    using assms by (rule reachable_keys)
  obtain ld where ld: "fst (ingest_lead n e src ex now s) = Inr ld"
    by (simp add: ingest_lead_def Let_def)
  then have f: "status ld = ''new'' \<and> score ld = None \<and> assigned_to ld = None
      \<and> name ld = n \<and> email ld = e \<and> source ld = src \<and> id' ld = int (length (LEADS s)) + 1"
    by (auto simp: ingest_lead_def Let_def)
  from ingest_lead_append [OF k, of n e src ex now] ld f
  have "ingest_lead n e src ex now s = (Inr ld, s\<lparr>LEADS := LEADS s @ [(id' ld, ld)]\<rparr>)"
    by (simp add: prod_eq_iff)
  moreover from k f have "id' ld \<notin> set (dict_keys (LEADS s))"
    by simp
  ultimately show ?thesis
    using f k by blast
qed

theorem ingest_lead_new_witness:
  "id' (projr (fst (ingest_lead ''Bo'' ''bo@x.com'' ''referral'' None 1
      (snd (ingest_lead ''Jane Doe'' ''jane@x.com'' ''web_form'' None 0 init))))) = 2
   \<and> length (LEADS (snd (ingest_lead ''Bo'' ''bo@x.com'' ''referral'' None 1
      (snd (ingest_lead ''Jane Doe'' ''jane@x.com'' ''web_form'' None 0 init))))) = 2"
proof -
  let ?s = "snd (ingest_lead ''Jane Doe'' ''jane@x.com'' ''web_form'' None 0 init)"
  have r: "reachable ?s"
    by (intro reachable.intros)
  have len: "length (LEADS ?s) = 1"
    by (simp add: ingest_lead_def init_def Let_def)
  from ingest_lead_new [OF r, of "''Bo''" "''bo@x.com''" "''referral''" None 1] len
  show ?thesis
    by auto
qed


section \<open>Assignment and status\<close>

lemma map_dict_set_present:
  "dict_get d k = Some w \<Longrightarrow> f (k, v) = f (k, w) \<Longrightarrow> map f (dict_set k v d) = map f d"
  by (induction d) (auto split: if_splits)

lemma enrich_lead_assignment:
  "map (\<lambda>(k, ld). (k, assigned_to ld, status ld)) (LEADS (snd (enrich_lead lead_id s))) =
   map (\<lambda>(k, ld). (k, assigned_to ld, status ld)) (LEADS s)"
  by (simp add: enrich_lead_def Let_def map_dict_set_present split: option.splits)

lemma score_lead_assignment:
  "map (\<lambda>(k, ld). (k, assigned_to ld, status ld)) (LEADS (snd (score_lead lead_id s))) =
   map (\<lambda>(k, ld). (k, assigned_to ld, status ld)) (LEADS s)"
  by (simp add: score_lead_def Let_def map_dict_set_present split: option.splits)

lemma route_lead_sets_both:
  "fst (route_lead lead_id s) = Inr ld' \<Longrightarrow>
     assigned_to ld' \<noteq> None \<and> status ld' = ''assigned''
     \<and> dict_get (LEADS (snd (route_lead lead_id s))) lead_id = Some ld'"
  by (auto simp: route_lead_def Let_def dict_get_set split: option.splits if_splits)

lemma route_lead_others:
  "k \<noteq> lead_id \<Longrightarrow> dict_get (LEADS (snd (route_lead lead_id s))) k = dict_get (LEADS s) k"
  by (simp add: route_lead_def Let_def dict_get_set split: option.splits)

lemma reachable_assignment:
  "reachable s \<Longrightarrow>
     \<forall>ld \<in> set (dict_values (LEADS s)). (assigned_to ld \<noteq> None) = (status ld = ''assigned'')"
proof (induction rule: reachable.induct)
  case r_init
  show ?case by (simp add: init_def dict_values_def)
next
  case (r_ingest s n e src ex now)
  then show ?case
    using ingest_lead_result [of n e src ex now s]
    by (auto dest!: ingest_lead_leads)
next
  case (r_enrich s lead_id)
  then show ?case
    by (auto dest!: enrich_lead_leads)
next
  case (r_score s lead_id)
  then show ?case
    by (auto dest!: score_lead_leads)
next
  case (r_route s lead_id)
  then show ?case
    by (auto dest!: route_lead_leads)
next
  case (r_report s)
  then show ?case by (simp add: report_performance_state)
qed

text \<open>
  C9. In a reachable state every stored lead has \<open>assigned_to\<close> set exactly when its
  status is \<^verbatim>\<open>assigned\<close>. From such a state, a call of \<^verbatim>\<open>route_lead\<close> that
  returns has set both fields of the lead it returns and stores, and leaves every other
  entry as it was; \<^verbatim>\<open>enrich_lead\<close> and \<^verbatim>\<open>score_lead\<close> leave both fields of
  every entry unchanged; \<^verbatim>\<open>ingest_lead\<close> adds one entry with neither set; and
  \<^verbatim>\<open>report_performance\<close> leaves the store as it was.
\<close>

theorem assigned_iff_status:
  assumes "reachable s"
  shows "(\<forall>ld \<in> set (dict_values (LEADS s)). (assigned_to ld \<noteq> None) = (status ld = ''assigned''))
       \<and> (\<forall>ld'. fst (route_lead lead_id s) = Inr ld' \<longrightarrow>
             assigned_to ld' \<noteq> None \<and> status ld' = ''assigned''
             \<and> dict_get (LEADS (snd (route_lead lead_id s))) lead_id = Some ld')
       \<and> (\<forall>k. k \<noteq> lead_id \<longrightarrow> dict_get (LEADS (snd (route_lead lead_id s))) k = dict_get (LEADS s) k)
       \<and> map (\<lambda>(k, ld). (k, assigned_to ld, status ld)) (LEADS (snd (enrich_lead lead_id s))) =
           map (\<lambda>(k, ld). (k, assigned_to ld, status ld)) (LEADS s)
       \<and> map (\<lambda>(k, ld). (k, assigned_to ld, status ld)) (LEADS (snd (score_lead lead_id s))) =
           map (\<lambda>(k, ld). (k, assigned_to ld, status ld)) (LEADS s)
       \<and> map (\<lambda>(k, ld). (k, assigned_to ld, status ld)) (LEADS (snd (ingest_lead n e src ex now s))) =
           map (\<lambda>(k, ld). (k, assigned_to ld, status ld)) (LEADS s)
             @ [(int (length (LEADS s)) + 1, None, ''new'')]
       \<and> LEADS (snd (report_performance s)) = LEADS s"
proof -
  have "map (\<lambda>(k, ld). (k, assigned_to ld, status ld)) (LEADS (snd (ingest_lead n e src ex now s))) =
           map (\<lambda>(k, ld). (k, assigned_to ld, status ld)) (LEADS s)
             @ [(int (length (LEADS s)) + 1, None, ''new'')]"
    using ingest_lead_append [OF reachable_keys [OF assms], of n e src ex now]
      ingest_lead_result [of n e src ex now s]
    by simp
  with reachable_assignment [OF assms] show ?thesis
    by (simp add: route_lead_sets_both route_lead_others enrich_lead_assignment
        score_lead_assignment report_performance_state)
qed

theorem assigned_iff_status_witness:
  "map (\<lambda>(k, ld). (k, assigned_to ld \<noteq> None, status ld))
     (LEADS (snd (route_lead 1
        (snd (ingest_lead ''Bo'' ''bo@x.com'' ''referral'' None 1
          (snd (ingest_lead ''Jane Doe'' ''jane@x.com'' ''web_form'' None 0 init)))))))
   = [(1, True, ''assigned''), (2, False, ''new'')]"
proof -
  let ?s = "snd (route_lead 1
        (snd (ingest_lead ''Bo'' ''bo@x.com'' ''referral'' None 1
          (snd (ingest_lead ''Jane Doe'' ''jane@x.com'' ''web_form'' None 0 init)))))"
  have "reachable ?s"
    by (intro reachable.intros)
  from assigned_iff_status [OF this, of 1]
  have inv: "\<forall>ld \<in> set (dict_values (LEADS ?s)). (assigned_to ld \<noteq> None) = (status ld = ''assigned'')"
    by blast
  have "map (\<lambda>(k, ld). (k, status ld)) (LEADS ?s) = [(1, ''assigned''), (2, ''new'')]"
    by (simp add: route_lead_def ingest_lead_def init_def Let_def)
  with inv show ?thesis
    by (simp add: route_lead_def ingest_lead_def init_def Let_def dict_values_def)
qed


section \<open>Enrichment\<close>

lemma replace_space: "replace CHR '' '' [] s = filter (\<lambda>c. c \<noteq> CHR '' '') s"
  by (induction s) (simp_all add: replace_def)

lemma dict_update_enrichment_get:
  "dict_get (dict_update d (enrichment ld)) k =
     (if k = ''company'' then Some (VStr ''Acme Corp'')
      else if k = ''linkedin''
        then Some (VStr (''https://linkedin.com/in/'' @ lower (replace CHR '' '' [] (name ld))))
      else if k = ''industry'' then Some (VStr ''Technology'')
      else if k = ''location'' then Some (VStr ''San Francisco, CA'')
      else dict_get d k)"
  by (simp add: enrichment_def dict_get_set)

lemma dict_update_fixed:
  "\<forall>(k, v) \<in> set e. dict_get d k = Some v \<Longrightarrow> dict_update d e = d"
  by (induction e arbitrary: d) (auto simp: dict_set_same)

lemma dict_update_enrichment_twice:
  "dict_update (dict_update d (enrichment ld)) (enrichment ld) = dict_update d (enrichment ld)"
proof (rule dict_update_fixed)
  show "\<forall>(k, v) \<in> set (enrichment ld). dict_get (dict_update d (enrichment ld)) k = Some v"
    unfolding dict_update_enrichment_get by (simp add: enrichment_def)
qed

lemma keys_dict_update: "set (dict_keys d) \<subseteq> set (dict_keys (dict_update d e))"
proof (induction e arbitrary: d)
  case Nil
  show ?case by simp
next
  case (Cons kv e)
  obtain k v where kv: "kv = (k, v)"
    by (cases kv)
  have "set (dict_keys d) \<subseteq> set (dict_keys (dict_set k v d))"
    by (auto simp: keys_dict_set)
  also have "\<dots> \<subseteq> set (dict_keys (dict_update (dict_set k v d) e))"
    by (rule Cons.IH)
  finally show ?case
    by (simp add: kv)
qed

text \<open>
  C8. For a lead that is in the store, \<^verbatim>\<open>enrich_lead\<close> returns, and a second call
  right after returns the same lead and leaves the same state as the first. After the
  call the four keys \<^verbatim>\<open>company\<close>, \<^verbatim>\<open>linkedin\<close>, \<^verbatim>\<open>industry\<close> and
  \<^verbatim>\<open>location\<close> of \<open>extra\<close> hold the enrichment values, whatever they held
  before; the profile URL is the fixed prefix followed by the lead's name without its
  spaces, in lower case. Every other key of \<open>extra\<close> keeps its value, no key is
  removed, and no other field of the lead changes. The lead returned is the lead held in
  \<^verbatim>\<open>LEADS\<close> under the id after the call; the state differs from the state before
  in this one entry only, which keeps its place, and every other entry is as it was.
\<close>

theorem enrich_lead_idempotent:
  assumes "dict_get (LEADS s) lead_id = Some ld"
  shows "\<exists>ld1 s1. enrich_lead lead_id s = (Inr ld1, s1)
           \<and> enrich_lead lead_id s1 = (Inr ld1, s1)
           \<and> ld1 = ld\<lparr>extra := extra ld1\<rparr>
           \<and> dict_get (extra ld1) ''company'' = Some (VStr ''Acme Corp'')
           \<and> dict_get (extra ld1) ''linkedin'' =
               Some (VStr (''https://linkedin.com/in/'' @
                           map lower_char (filter (\<lambda>c. c \<noteq> CHR '' '') (name ld))))
           \<and> dict_get (extra ld1) ''industry'' = Some (VStr ''Technology'')
           \<and> dict_get (extra ld1) ''location'' = Some (VStr ''San Francisco, CA'')
           \<and> (\<forall>k. k \<notin> {''company'', ''linkedin'', ''industry'', ''location''} \<longrightarrow>
                 dict_get (extra ld1) k = dict_get (extra ld) k)
           \<and> set (dict_keys (extra ld)) \<subseteq> set (dict_keys (extra ld1))
           \<and> dict_get (LEADS s1) lead_id = Some ld1
           \<and> s1 = s\<lparr>LEADS := dict_set lead_id ld1 (LEADS s)\<rparr>
           \<and> dict_keys (LEADS s1) = dict_keys (LEADS s)
           \<and> (\<forall>k. k \<noteq> lead_id \<longrightarrow> dict_get (LEADS s1) k = dict_get (LEADS s) k)"
proof -
  let ?ld1 = "ld\<lparr>extra := dict_update (extra ld) (enrichment ld)\<rparr>"
  let ?s1 = "s\<lparr>LEADS := dict_set lead_id ?ld1 (LEADS s)\<rparr>"
  have first: "enrich_lead lead_id s = (Inr ?ld1, ?s1)"
    using assms by (simp add: enrich_lead_def Let_def)
  have same: "enrichment ?ld1 = enrichment ld"
    by (simp add: enrichment_def)
  have "dict_get (LEADS ?s1) lead_id = Some ?ld1"
    by (simp add: dict_get_set)
  then have second: "enrich_lead lead_id ?s1 = (Inr ?ld1, ?s1)"
    by (simp add: enrich_lead_def Let_def same dict_update_enrichment_twice dict_set_twice)
  have other: "\<forall>k. k \<notin> {''company'', ''linkedin'', ''industry'', ''location''} \<longrightarrow>
                 dict_get (extra ?ld1) k = dict_get (extra ld) k"
    by (simp add: dict_update_enrichment_get)
  have owned: "dict_get (extra ?ld1) ''company'' = Some (VStr ''Acme Corp'')
      \<and> dict_get (extra ?ld1) ''linkedin'' =
               Some (VStr (''https://linkedin.com/in/'' @
                           map lower_char (filter (\<lambda>c. c \<noteq> CHR '' '') (name ld))))
      \<and> dict_get (extra ?ld1) ''industry'' = Some (VStr ''Technology'')
      \<and> dict_get (extra ?ld1) ''location'' = Some (VStr ''San Francisco, CA'')"
    by (simp add: dict_update_enrichment_get replace_space lower_def)
  have kept: "set (dict_keys (extra ld)) \<subseteq> set (dict_keys (extra ?ld1))"
    by (simp add: keys_dict_update)
  have rec: "?ld1 = ld\<lparr>extra := extra ?ld1\<rparr>"
    by simp
  have stored: "dict_get (LEADS ?s1) lead_id = Some ?ld1"
    by (simp add: dict_get_set)
  have upd: "?s1 = s\<lparr>LEADS := dict_set lead_id ?ld1 (LEADS s)\<rparr>"
    by simp
  have keys: "dict_keys (LEADS ?s1) = dict_keys (LEADS s)"
    using assms by (simp add: keys_dict_set_present)
  have frame: "\<forall>k. k \<noteq> lead_id \<longrightarrow> dict_get (LEADS ?s1) k = dict_get (LEADS s) k"
    by (simp add: dict_get_set)
  show ?thesis
  proof (intro exI conjI)
    show "enrich_lead lead_id s = (Inr ?ld1, ?s1)" by (rule first)
    show "enrich_lead lead_id ?s1 = (Inr ?ld1, ?s1)" by (rule second)
    show "?ld1 = ld\<lparr>extra := extra ?ld1\<rparr>" by (rule rec)
    show "dict_get (LEADS ?s1) lead_id = Some ?ld1" by (rule stored)
    show "?s1 = s\<lparr>LEADS := dict_set lead_id ?ld1 (LEADS s)\<rparr>" by (rule upd)
    show "dict_keys (LEADS ?s1) = dict_keys (LEADS s)" by (rule keys)
    show "\<forall>k. k \<noteq> lead_id \<longrightarrow> dict_get (LEADS ?s1) k = dict_get (LEADS s) k" by (rule frame)
    show "\<forall>k. k \<notin> {''company'', ''linkedin'', ''industry'', ''location''} \<longrightarrow>
                 dict_get (extra ?ld1) k = dict_get (extra ld) k" by (rule other)
    show "set (dict_keys (extra ld)) \<subseteq> set (dict_keys (extra ?ld1))" by (rule kept)
  qed (use owned in blast)+
qed



theorem enrich_lead_idempotent_witness:
  "dict_get (extra (projr (fst (enrich_lead 1
      (snd (ingest_lead ''Jane Doe'' ''jane@x.com'' ''web_form''
             (Some [(''company'', VStr ''Initech''), (''note'', VStr ''vip'')]) 0 init))))))
     ''linkedin'' = Some (VStr ''https://linkedin.com/in/janedoe'')
   \<and> dict_get (extra (projr (fst (enrich_lead 1
      (snd (ingest_lead ''Jane Doe'' ''jane@x.com'' ''web_form''
             (Some [(''company'', VStr ''Initech''), (''note'', VStr ''vip'')]) 0 init))))))
     ''note'' = Some (VStr ''vip'')
   \<and> dict_get (extra (projr (fst (enrich_lead 1
      (snd (ingest_lead ''Jane Doe'' ''jane@x.com'' ''web_form''
             (Some [(''company'', VStr ''Initech''), (''note'', VStr ''vip'')]) 0 init))))))
     ''company'' = Some (VStr ''Acme Corp'')
   \<and> map_option (\<lambda>ld. dict_get (extra ld) ''company'')
       (dict_get (LEADS (snd (enrich_lead 1
          (snd (ingest_lead ''Jane Doe'' ''jane@x.com'' ''web_form''
             (Some [(''company'', VStr ''Initech''), (''note'', VStr ''vip'')]) 0 init))))) 1)
     = Some (Some (VStr ''Acme Corp''))"
proof -
  let ?ex = "[(''company'', VStr ''Initech''), (''note'', VStr ''vip'')]"
  let ?s = "snd (ingest_lead ''Jane Doe'' ''jane@x.com'' ''web_form'' (Some ?ex) 0 init)"
  let ?ld = "\<lparr>id' = 1, created_at = 0, name = ''Jane Doe'', email = ''jane@x.com'',
              source = ''web_form'', extra = ?ex, status = ''new'', score = None,
              assigned_to = None\<rparr>"
  have g: "dict_get (LEADS ?s) 1 = Some ?ld"
    by (simp add: ingest_lead_def init_def Let_def)
  have l: "map lower_char (filter (\<lambda>c. c \<noteq> CHR '' '') ''Jane Doe'') = ''janedoe''"
    by code_simp
  from enrich_lead_idempotent [OF g] obtain ld1 s1 where
    e: "enrich_lead 1 ?s = (Inr ld1, s1)" and
    "enrich_lead 1 s1 = (Inr ld1, s1)" and
    "ld1 = ?ld\<lparr>extra := extra ld1\<rparr>" and
    c: "dict_get (extra ld1) ''company'' = Some (VStr ''Acme Corp'')" and
    li: "dict_get (extra ld1) ''linkedin'' =
           Some (VStr (''https://linkedin.com/in/'' @
                       map lower_char (filter (\<lambda>c. c \<noteq> CHR '' '') (name ?ld))))" and
    "dict_get (extra ld1) ''industry'' = Some (VStr ''Technology'')" and
    "dict_get (extra ld1) ''location'' = Some (VStr ''San Francisco, CA'')" and
    o: "\<forall>k. k \<notin> {''company'', ''linkedin'', ''industry'', ''location''} \<longrightarrow>
          dict_get (extra ld1) k = dict_get (extra ?ld) k" and
    "set (dict_keys (extra ?ld)) \<subseteq> set (dict_keys (extra ld1))" and
    st: "dict_get (LEADS s1) 1 = Some ld1" and
    "s1 = ?s\<lparr>LEADS := dict_set 1 ld1 (LEADS ?s)\<rparr>" and
    "dict_keys (LEADS s1) = dict_keys (LEADS ?s)" and
    "\<forall>k. k \<noteq> 1 \<longrightarrow> dict_get (LEADS s1) k = dict_get (LEADS ?s) k"
    by (elim exE conjE)
  from o have "''note'' \<notin> {''company'', ''linkedin'', ''industry'', ''location''} \<longrightarrow>
      dict_get (extra ld1) ''note'' = dict_get (extra ?ld) ''note''"
    by (rule spec)
  then have n: "dict_get (extra ld1) ''note'' = Some (VStr ''vip'')"
    by simp
  from li l have "dict_get (extra ld1) ''linkedin'' = Some (VStr ''https://linkedin.com/in/janedoe'')"
    by simp
  with e c n st show ?thesis
    by simp
qed

section \<open>Round-robin routing\<close>

lemma route_lead_assigns:
  assumes "fst (route_lead lead_id s) = Inr ld"
  shows "assigned_to ld = Some (SALES_REPS s ! nat (route_counter s mod int (length (SALES_REPS s))))"
  using assms by (auto simp: route_lead_def Let_def split: option.splits if_splits)

lemma round_robin_general:
  "fst (route_leads ids s) = map Inr lds \<Longrightarrow>
     length lds = length ids
     \<and> (\<forall>i < length ids. assigned_to (lds ! i) =
           Some (SALES_REPS s ! nat ((route_counter s + int i) mod int (length (SALES_REPS s)))))
     \<and> route_counter (snd (route_leads ids s)) = route_counter s + int (length ids)"
proof (induction ids arbitrary: s lds)
  case Nil
  then show ?case by simp
next
  case (Cons lead_id ids)
  obtain r s' where step: "route_lead lead_id s = (r, s')"
    by (cases "route_lead lead_id s")
  obtain rs s'' where rest: "route_leads ids s' = (rs, s'')"
    by (cases "route_leads ids s'")
  from Cons.prems step rest obtain ld lds' where
    lds: "lds = ld # lds'" and r: "r = Inr ld" and rs: "rs = map Inr lds'"
    by (cases lds) auto
  from step r have c: "route_counter s' = route_counter s + 1"
    by (simp add: route_lead_counter_success)
  from step have reps: "SALES_REPS s' = SALES_REPS s"
    using route_lead_roster [of lead_id s] by simp
  from step r have a: "assigned_to ld =
      Some (SALES_REPS s ! nat (route_counter s mod int (length (SALES_REPS s))))"
    using route_lead_assigns [of lead_id s ld] by simp
  from rest rs have "fst (route_leads ids s') = map Inr lds'"
    by simp
  from Cons.IH [OF this] c reps rest have
    len: "length lds' = length ids" and
    ass: "\<forall>i < length ids. assigned_to (lds' ! i) =
           Some (SALES_REPS s ! nat ((route_counter s + 1 + int i) mod int (length (SALES_REPS s))))" and
    cnt: "route_counter s'' = route_counter s + 1 + int (length ids)"
    by simp_all
  have "\<forall>i < length (lead_id # ids). assigned_to (lds ! i) =
           Some (SALES_REPS s ! nat ((route_counter s + int i) mod int (length (SALES_REPS s))))"
  proof (intro allI impI)
    fix i
    assume "i < length (lead_id # ids)"
    then show "assigned_to (lds ! i) =
           Some (SALES_REPS s ! nat ((route_counter s + int i) mod int (length (SALES_REPS s))))"
      using a ass lds by (cases i) (simp_all add: add.assoc add.left_commute add.commute)
  qed
  with len cnt lds step rest show ?case
    by simp
qed

lemma all_Inr: "list_all (\<lambda>r. \<not> isl r) rs \<Longrightarrow> rs = map Inr (map projr rs)"
  by (induction rs) auto

lemma seven_routes:
  "map isl (fst (route_leads [1, 2, 1, 2, 1, 2, 1]
       (snd (ingest_lead ''Bo'' ''bo@x.com'' ''referral'' None 1
          (snd (ingest_lead ''Jane Doe'' ''jane@x.com'' ''web_form'' None 0 init))))))
     = [False, False, False, False, False, False, False]
   \<and> map (\<lambda>r. assigned_to (projr r)) (fst (route_leads [1, 2, 1, 2, 1, 2, 1]
       (snd (ingest_lead ''Bo'' ''bo@x.com'' ''referral'' None 1
          (snd (ingest_lead ''Jane Doe'' ''jane@x.com'' ''web_form'' None 0 init))))))
     = map (\<lambda>i. Some (SALES_REPS init ! i)) [0, 1, 2, 0, 1, 2, 0]
   \<and> route_counter (snd (route_leads [1, 2, 1, 2, 1, 2, 1]
       (snd (ingest_lead ''Bo'' ''bo@x.com'' ''referral'' None 1
          (snd (ingest_lead ''Jane Doe'' ''jane@x.com'' ''web_form'' None 0 init)))))) = 7"
  by (simp add: route_lead_def ingest_lead_def init_def Let_def)

text \<open>
  C4. When all of the calls \<^verbatim>\<open>route_lead\<close> made one after the other for the ids
  \<open>ids\<close> return a lead, the \<open>i\<close>-th of them (counted from 0) has assigned the roster
  entry at index \<open>(c0 + i) mod len(SALES_REPS)\<close>, for \<open>c0\<close> the counter before the
  first call, and the counter afterwards is \<open>c0\<close> plus the number of calls. With the
  roster of three and the counter at 0, seven calls for stored leads all return, assign the
  entries at indices 0, 1, 2, 0, 1, 2, 0, and leave the counter at 7.
\<close>

theorem round_robin:
  "(fst (route_leads ids s) = map Inr lds \<longrightarrow>
      length lds = length ids
      \<and> (\<forall>i < length ids. assigned_to (lds ! i) =
            Some (SALES_REPS s ! nat ((route_counter s + int i) mod int (length (SALES_REPS s)))))
      \<and> route_counter (snd (route_leads ids s)) = route_counter s + int (length ids))
   \<and> (length (SALES_REPS init) = 3 \<and> route_counter init = 0
      \<and> map isl (fst (route_leads [1, 2, 1, 2, 1, 2, 1]
           (snd (ingest_lead ''Bo'' ''bo@x.com'' ''referral'' None 1
              (snd (ingest_lead ''Jane Doe'' ''jane@x.com'' ''web_form'' None 0 init))))))
         = [False, False, False, False, False, False, False]
      \<and> map (\<lambda>r. assigned_to (projr r)) (fst (route_leads [1, 2, 1, 2, 1, 2, 1]
           (snd (ingest_lead ''Bo'' ''bo@x.com'' ''referral'' None 1
              (snd (ingest_lead ''Jane Doe'' ''jane@x.com'' ''web_form'' None 0 init))))))
         = map (\<lambda>i. Some (SALES_REPS init ! i)) [0, 1, 2, 0, 1, 2, 0]
      \<and> route_counter (snd (route_leads [1, 2, 1, 2, 1, 2, 1]
           (snd (ingest_lead ''Bo'' ''bo@x.com'' ''referral'' None 1
              (snd (ingest_lead ''Jane Doe'' ''jane@x.com'' ''web_form'' None 0 init)))))) = 7)"
proof -
  have general: "fst (route_leads ids s) = map Inr lds \<longrightarrow>
      length lds = length ids
      \<and> (\<forall>i < length ids. assigned_to (lds ! i) =
            Some (SALES_REPS s ! nat ((route_counter s + int i) mod int (length (SALES_REPS s)))))
      \<and> route_counter (snd (route_leads ids s)) = route_counter s + int (length ids)"
    by (rule impI) (rule round_robin_general)
  have start: "length (SALES_REPS init) = 3" "route_counter init = 0"
    by (simp_all add: init_def)
  from general start seven_routes show ?thesis
    by (elim conjE) (intro conjI; assumption)
qed

theorem round_robin_witness:
  "list_all (\<lambda>r. \<not> isl r) (fst (route_leads [1, 2, 1]
       (snd (ingest_lead ''Bo'' ''bo@x.com'' ''referral'' None 1
          (snd (ingest_lead ''Jane Doe'' ''jane@x.com'' ''web_form'' None 0 init))))))
   \<and> assigned_to (projr (fst (route_leads [1, 2, 1]
       (snd (ingest_lead ''Bo'' ''bo@x.com'' ''referral'' None 1
          (snd (ingest_lead ''Jane Doe'' ''jane@x.com'' ''web_form'' None 0 init))))) ! 2))
       = Some (SALES_REPS init ! 2)
   \<and> route_counter (snd (route_leads [1, 2, 1]
       (snd (ingest_lead ''Bo'' ''bo@x.com'' ''referral'' None 1
          (snd (ingest_lead ''Jane Doe'' ''jane@x.com'' ''web_form'' None 0 init)))))) = 3"
proof -
  let ?s = "snd (ingest_lead ''Bo'' ''bo@x.com'' ''referral'' None 1
          (snd (ingest_lead ''Jane Doe'' ''jane@x.com'' ''web_form'' None 0 init)))"
  let ?rs = "fst (route_leads [1, 2, 1] ?s)"
  have ok: "list_all (\<lambda>r. \<not> isl r) ?rs"
    by (simp add: route_lead_def ingest_lead_def init_def Let_def)
  have len: "length ?rs = 3"
    by (simp add: split_def)
  have s: "route_counter ?s = 0" "SALES_REPS ?s = SALES_REPS init" "length (SALES_REPS init) = 3"
    by (simp_all add: ingest_lead_def init_def Let_def)
  from round_robin [of "[1, 2, 1]" ?s "map projr ?rs"] all_Inr [OF ok]
  have a: "\<forall>i < length [1, 2, 1 :: int]. assigned_to (map projr ?rs ! i) =
            Some (SALES_REPS ?s ! nat ((route_counter ?s + int i) mod int (length (SALES_REPS ?s))))"
    and c: "route_counter (snd (route_leads [1, 2, 1] ?s)) = route_counter ?s + int (length [1, 2, 1 :: int])"
    by blast+
  from a have "assigned_to (map projr ?rs ! 2) =
            Some (SALES_REPS ?s ! nat ((route_counter ?s + int 2) mod int (length (SALES_REPS ?s))))"
    by simp
  with len s have "assigned_to (projr (?rs ! 2)) = Some (SALES_REPS init ! 2)"
    by simp
  with ok c s show ?thesis
    by simp
qed

end
